theory Spec2Isabelle
  imports Main "HOL-Library.Multiset"
begin

section \<open>Day 5: the data model\<close>

text \<open>
  A seed range is the Python tuple \<open>(start, end)\<close>, read as the half-open interval
  from \<open>start\<close> up to but excluding \<open>end\<close>. A mapping rule is one line of a category
  block, the tuple \<open>(destination_start, source_start, length)\<close>. Python integers are
  unbounded, so every component is an \<open>int\<close>.
\<close>

type_synonym seed_range = "int \<times> int"

type_synonym mapping_rule = "int \<times> int \<times> int"

text \<open>The class \<open>Category\<close>: its identifier and its list of rules, in the order of the block.\<close>

record category =
  category_id :: string
  category_map :: "mapping_rule list"

text \<open>
  The class \<open>Gardener\<close>. The attribute \<open>categories\<close> is a dictionary keyed by the
  block index \<open>0, 1, ...\<close> and only ever read through \<open>values()\<close>, which yields the
  categories in insertion order: it is the list of categories in block order.
\<close>

record gardener =
  initial_seeds :: "int list"
  seed_ranges :: "seed_range list"
  categories :: "category list"

text \<open>The two exceptions the modelled code can raise.\<close>

datatype error = IndexError | ValueError

section \<open>Category.convert_initial_seed\<close>

text \<open>
  \<open>next(generator, source_number)\<close>: the rules are scanned in order, the first rule whose
  source interval contains the number gives the result, and the number itself is the
  default.
\<close>

fun first_containing :: "mapping_rule list \<Rightarrow> int \<Rightarrow> int" where
  "first_containing [] source_number = source_number"
| "first_containing ((destination_start, source_start, len) # rest) source_number =
     (if source_start \<le> source_number \<and> source_number < source_start + len
      then destination_start + (source_number - source_start)
      else first_containing rest source_number)"

definition convert_initial_seed :: "category \<Rightarrow> int \<Rightarrow> int" where
  "convert_initial_seed c source_number = first_containing (category_map c) source_number"

section \<open>Category.convert_seed_range\<close>

text \<open>
  The \<open>for ... else\<close> over the rules, for one popped range \<open>(start, stop)\<close> (\<open>stop\<close> is
  the source's \<open>end\<close>). \<open>None\<close> is the \<open>else\<close> branch: no rule overlapped. Otherwise the
  result is the translated overlap appended to \<open>converted_ranges\<close> and the residual
  ranges appended to the work-list, in the order the source appends them; the \<open>break\<close>
  leaves the later rules unread.
\<close>

fun scan_rules :: "mapping_rule list \<Rightarrow> int \<Rightarrow> int \<Rightarrow> (seed_range \<times> seed_range list) option" where
  "scan_rules [] start stop = None"
| "scan_rules ((destination_start, source_start, len) # rest) start stop =
     (let overlap_start = max start source_start;
          overlap_end = min stop (source_start + len)
      in if overlap_start < overlap_end
         then Some ((overlap_start - source_start + destination_start,
                     overlap_end - source_start + destination_start),
                    (if overlap_start > start then [(start, overlap_start)] else []) @
                    (if stop > overlap_end then [(overlap_end, stop)] else []))
         else scan_rules rest start stop)"

text \<open>
  The state of the \<open>while\<close> loop is the pair of the work-list \<open>seed_ranges_pair\<close> (the
  caller's list object, mutated in place) and the local list \<open>converted_ranges\<close>. One
  iteration pops the last range of the work-list and appends at the end of both lists.
  The body only runs on a non-empty work-list.
\<close>

type_synonym loop_state = "seed_range list \<times> seed_range list"

definition convert_step :: "mapping_rule list \<Rightarrow> loop_state \<Rightarrow> loop_state" where
  "convert_step rules st =
     (case st of (seed_ranges_pair, converted_ranges) \<Rightarrow>
       (case last seed_ranges_pair of (start, stop) \<Rightarrow>
         (case scan_rules rules start stop of
            None \<Rightarrow> (butlast seed_ranges_pair, converted_ranges @ [(start, stop)])
          | Some (converted, pushed) \<Rightarrow>
              (butlast seed_ranges_pair @ pushed, converted_ranges @ [converted]))))"

text \<open>The weight of a work-list: it falls with every iteration of the loop.\<close>

definition range_weight :: "seed_range \<Rightarrow> nat" where
  "range_weight r = 2 * nat (snd r - fst r) + 1"

definition work_weight :: "seed_range list \<Rightarrow> nat" where
  "work_weight work = sum_list (map range_weight work)"

lemma scan_rules_Some_weight:
  "scan_rules rules start stop = Some (converted, pushed) \<Longrightarrow>
   work_weight pushed < range_weight (start, stop)"
  by (induction rules) (auto simp: Let_def work_weight_def range_weight_def split: if_splits)

lemma work_weight_append: "work_weight (xs @ ys) = work_weight xs + work_weight ys"
  by (simp add: work_weight_def)

lemma work_weight_butlast:
  "work \<noteq> [] \<Longrightarrow> work_weight work = work_weight (butlast work) + range_weight (last work)"
  using work_weight_append [of "butlast work" "[last work]"]
  by (simp add: work_weight_def)

lemma range_weight_pos: "0 < range_weight r"
  by (simp add: range_weight_def)

lemma convert_step_weight:
  "fst st \<noteq> [] \<Longrightarrow> work_weight (fst (convert_step rules st)) < work_weight (fst st)"
proof -
  assume ne: "fst st \<noteq> []"
  obtain work conv where st: "st = (work, conv)" by (cases st)
  obtain start stop where l: "last work = (start, stop)" by (cases "last work")
  from ne st have w: "work_weight work = work_weight (butlast work) + range_weight (start, stop)"
    using work_weight_butlast [of work] l by simp
  show ?thesis
  proof (cases "scan_rules rules start stop")
    case None
    then show ?thesis using st l w range_weight_pos [of "(start, stop)"]
      by (simp add: convert_step_def)
  next
    case (Some p)
    obtain c pushed where p: "p = (c, pushed)" by (cases p)
    from Some p scan_rules_Some_weight have "work_weight pushed < range_weight (start, stop)"
      by simp
    then show ?thesis using st l w Some p
      by (simp add: convert_step_def work_weight_append)
  qed
qed

text \<open>
  The \<open>while len(seed_ranges_pair) > 0\<close> loop, from a state to the state it ends in.
  It terminates on every input: a popped range that no rule overlaps leaves the
  work-list, and the residual ranges pushed for one that is split are together strictly
  shorter than it.
\<close>

function convert_loop :: "mapping_rule list \<Rightarrow> loop_state \<Rightarrow> loop_state" where
  "convert_loop rules st =
     (if length (fst st) > 0 then convert_loop rules (convert_step rules st) else st)"
  by pat_completeness auto
termination
  by (relation "measure (\<lambda>(rules, st). work_weight (fst st))")
     (auto intro: convert_step_weight)

text \<open>The number of times the loop body runs from a state, by the same recursion.\<close>

function convert_iterations :: "mapping_rule list \<Rightarrow> loop_state \<Rightarrow> nat" where
  "convert_iterations rules st =
     (if length (fst st) > 0 then Suc (convert_iterations rules (convert_step rules st)) else 0)"
  by pat_completeness auto
termination
  by (relation "measure (\<lambda>(rules, st). work_weight (fst st))")
     (auto intro: convert_step_weight)

text \<open>
  The method itself. Python passes the list by reference and the loop pops from and
  appends to that very object, so the call has two results: the list it returns
  (\<open>converted_ranges\<close>, a fresh list) and the content the caller's list object is left
  with.
\<close>

definition convert_seed_range :: "category \<Rightarrow> seed_range list \<Rightarrow> seed_range list \<times> seed_range list" where
  "convert_seed_range c seed_ranges_pair =
     (case convert_loop (category_map c) (seed_ranges_pair, []) of
        (remaining, converted_ranges) \<Rightarrow> (converted_ranges, remaining))"

section \<open>Gardener\<close>

text \<open>
  \<open>convert_to_location_seed_ranges\<close>: \<open>seed_pair\<close> first names the argument object
  itself, then the fresh list each category returns. The first category therefore works
  on the caller's list, every later one on a list no one else holds. The result is the
  returned list and the final content of the argument object; with no category the
  argument is returned as it is.
\<close>

fun thread_categories :: "category list \<Rightarrow> seed_range list \<Rightarrow> seed_range list \<times> seed_range list" where
  "thread_categories [] seed_pair = (seed_pair, seed_pair)"
| "thread_categories (c # rest) seed_pair =
     (case convert_seed_range c seed_pair of
        (converted_ranges, remaining) \<Rightarrow> (fst (thread_categories rest converted_ranges), remaining))"

definition convert_to_location_seed_ranges ::
  "gardener \<Rightarrow> seed_range list \<Rightarrow> seed_range list \<times> seed_range list" where
  "convert_to_location_seed_ranges g seed_ranges_pair = thread_categories (categories g) seed_ranges_pair"

text \<open>
  Python's \<open>min\<close> on a list of tuples: tuples compare lexicographically, the first
  minimal item is kept, and an empty list raises \<open>ValueError\<close>.
\<close>

definition tuple_less :: "seed_range \<Rightarrow> seed_range \<Rightarrow> bool" where
  "tuple_less a b = (fst a < fst b \<or> (fst a = fst b \<and> snd a < snd b))"

fun py_min :: "seed_range list \<Rightarrow> error + seed_range" where
  "py_min [] = Inl ValueError"
| "py_min (x # xs) = Inr (fold (\<lambda>item best. if tuple_less item best then item else best) xs x)"

text \<open>
  \<open>find_lowest_location_from_seed_ranges\<close> hands the attribute \<open>self.seed_ranges\<close>
  itself to the conversion, so the method has two results as well: the value it returns
  (or the exception it raises) and the gardener afterwards.
\<close>

definition find_lowest_location_from_seed_ranges :: "gardener \<Rightarrow> (error + int) \<times> gardener" where
  "find_lowest_location_from_seed_ranges g =
     (case convert_to_location_seed_ranges g (seed_ranges g) of
        (seed_ranges_pair, remaining) \<Rightarrow>
          ((case py_min seed_ranges_pair of Inl e \<Rightarrow> Inl e | Inr m \<Rightarrow> Inr (fst m)),
           g\<lparr>seed_ranges := remaining\<rparr>))"

text \<open>The part-one path, for comparison: it reads \<open>initial_seeds\<close> and builds new lists.\<close>

definition convert_to_location_initial_seeds :: "gardener \<Rightarrow> int \<Rightarrow> int" where
  "convert_to_location_initial_seeds g seed_number =
     fold (\<lambda>c current_number. convert_initial_seed c current_number) (categories g) seed_number"

subsection \<open>Gardener.parse_almanac: the seed ranges\<close>

text \<open>
  Indexing a list with a non-negative index raises \<open>IndexError\<close> past the end. A list
  comprehension stops at the first item that raises.
\<close>

definition py_getitem :: "'a list \<Rightarrow> nat \<Rightarrow> error + 'a" where
  "py_getitem xs i = (if i < length xs then Inr (xs ! i) else Inl IndexError)"

fun comprehension :: "(error + 'a) list \<Rightarrow> error + 'a list" where
  "comprehension [] = Inr []"
| "comprehension (item # items) =
     (case item of
        Inl e \<Rightarrow> Inl e
      | Inr v \<Rightarrow> (case comprehension items of Inl e \<Rightarrow> Inl e | Inr vs \<Rightarrow> Inr (v # vs)))"

text \<open>\<open>range(0, n, 2)\<close>: the even numbers below \<open>n\<close>.\<close>

definition range_by_two :: "nat \<Rightarrow> nat list" where
  "range_by_two n = map (\<lambda>k. 2 * k) [0 ..< (n + 1) div 2]"

text \<open>One item of the comprehension: \<open>(seeds[i], seeds[i] + seeds[i + 1])\<close>.\<close>

definition seed_range_at :: "int list \<Rightarrow> nat \<Rightarrow> error + seed_range" where
  "seed_range_at seeds i =
     (case py_getitem seeds i of
        Inl e \<Rightarrow> Inl e
      | Inr a \<Rightarrow> (case py_getitem seeds (i + 1) of Inl e \<Rightarrow> Inl e | Inr b \<Rightarrow> Inr (a, a + b)))"

text \<open>
  \<open>parse_almanac\<close> from the point where the seeds line has been split into its integers
  and every block has been made a \<open>Category\<close>: the attributes are assigned in the
  source's order, and an exception in the comprehension leaves the method there.
\<close>

definition parse_almanac :: "gardener \<Rightarrow> int list \<Rightarrow> category list \<Rightarrow> error + gardener" where
  "parse_almanac g seeds blocks =
     (case comprehension (map (seed_range_at seeds) (range_by_two (length seeds))) of
        Inl e \<Rightarrow> Inl e
      | Inr ranges \<Rightarrow> Inr (g\<lparr>initial_seeds := seeds, seed_ranges := ranges, categories := blocks\<rparr>))"

section \<open>The vocabulary of the properties\<close>

text \<open>
  The points of a range, as a set and as a multiset, and the points of a list of ranges:
  in the multiset a point counts once for every range of the list that holds it.
\<close>

definition range_points :: "seed_range \<Rightarrow> int multiset" where
  "range_points r = mset_set {fst r ..< snd r}"

definition points_mset :: "seed_range list \<Rightarrow> int multiset" where
  "points_mset rs = sum_list (map range_points rs)"

definition point_set :: "seed_range list \<Rightarrow> int set" where
  "point_set rs = \<Union> (set (map (\<lambda>r. {fst r ..< snd r}) rs))"

text \<open>A rule's source interval overlaps a range, as the loop body tests it.\<close>

definition overlaps :: "mapping_rule \<Rightarrow> int \<Rightarrow> int \<Rightarrow> bool" where
  "overlaps rule start stop =
     (case rule of (destination_start, source_start, len) \<Rightarrow>
        max start source_start < min stop (source_start + len))"

text \<open>A rule's source interval contains a number, as \<open>convert_initial_seed\<close> tests it.\<close>

definition contains_number :: "mapping_rule \<Rightarrow> int \<Rightarrow> bool" where
  "contains_number rule n =
     (case rule of (destination_start, source_start, len) \<Rightarrow>
        source_start \<le> n \<and> n < source_start + len)"

text \<open>
  The end points of the rules' source intervals, two for each rule, and how many of
  them lie strictly inside a range.
\<close>

fun boundaries :: "mapping_rule list \<Rightarrow> int list" where
  "boundaries [] = []"
| "boundaries ((destination_start, source_start, len) # rest) =
     source_start # (source_start + len) # boundaries rest"

definition cuts :: "int list \<Rightarrow> seed_range \<Rightarrow> nat" where
  "cuts bs r = length (filter (\<lambda>p. fst r < p \<and> p < snd r) bs)"

definition pieces_bound :: "int list \<Rightarrow> seed_range list \<Rightarrow> nat" where
  "pieces_bound bs work = sum_list (map (\<lambda>r. Suc (cuts bs r)) work)"

section \<open>The range conversion accounts for every point\<close>

lemma points_mset_append: "points_mset (xs @ ys) = points_mset xs + points_mset ys"
  by (simp add: points_mset_def)

lemma points_mset_butlast:
  "work \<noteq> [] \<Longrightarrow> points_mset work = points_mset (butlast work) + range_points (last work)"
  using points_mset_append [of "butlast work" "[last work]"]
  by (simp add: points_mset_def)

lemma set_mset_points_mset: "set_mset (points_mset rs) = point_set rs"
  by (induction rs) (auto simp: points_mset_def point_set_def range_points_def)

lemma mset_set_interval_split:
  fixes a b c :: int
  assumes "a \<le> b" "b \<le> c"
  shows "mset_set {a..<c} = mset_set {a..<b} + mset_set {b..<c}"
proof -
  have "{a..<c} = {a..<b} \<union> {b..<c}" using assms by auto
  moreover have "{a..<b} \<inter> {b..<c} = {}" by auto
  ultimately show ?thesis by (simp add: mset_set_Union)
qed

lemma image_mset_shift_interval:
  fixes a b k :: int
  shows "image_mset (\<lambda>x. k + x) (mset_set {a..<b}) = mset_set {a + k..<b + k}"
proof -
  have "inj_on (\<lambda>x. k + x) {a..<b}" by (simp add: inj_on_def)
  then have "image_mset (\<lambda>x. k + x) (mset_set {a..<b}) = mset_set ((\<lambda>x. k + x) ` {a..<b})"
    by (rule image_mset_mset_set)
  also have "(\<lambda>x. k + x) ` {a..<b} = {a + k..<b + k}"
    by (simp add: add.commute)
  finally show ?thesis .
qed

lemma scan_rules_Cons_if:
  "scan_rules ((d, s, l) # rest) start stop =
     (if max start s < min stop (s + l)
      then Some ((max start s - s + d, min stop (s + l) - s + d),
           (if max start s > start then [(start, max start s)] else []) @
           (if stop > min stop (s + l) then [(min stop (s + l), stop)] else []))
      else scan_rules rest start stop)"
  by (simp only: scan_rules.simps Let_def)

lemma scan_rules_hit:
  "max start s < min stop (s + l) \<Longrightarrow>
   scan_rules ((d, s, l) # rest) start stop =
     Some ((max start s - s + d, min stop (s + l) - s + d),
           (if max start s > start then [(start, max start s)] else []) @
           (if stop > min stop (s + l) then [(min stop (s + l), stop)] else []))"
  by (simp only: scan_rules_Cons_if if_True)

lemma scan_rules_miss:
  "\<not> max start s < min stop (s + l) \<Longrightarrow>
   scan_rules ((d, s, l) # rest) start stop = scan_rules rest start stop"
  by (simp only: scan_rules_Cons_if if_False)

lemma scan_rules_None_fixed:
  "scan_rules rules start stop = None \<Longrightarrow> start \<le> x \<Longrightarrow> x < stop \<Longrightarrow>
   first_containing rules x = x"
  by (induction rules) (auto simp: Let_def split: if_splits)

lemma scan_rules_Some_points:
  "scan_rules rules start stop = Some (converted, pushed) \<Longrightarrow>
   \<exists>a b. start \<le> a \<and> b \<le> stop \<and>
     range_points (start, stop) = mset_set {a..<b} + points_mset pushed \<and>
     image_mset (first_containing rules) (mset_set {a..<b}) = range_points converted"
proof (induction rules)
  case Nil
  then show ?case by simp
next
  case (Cons rule rest)
  obtain d s l where rule: "rule = (d, s, l)" by (cases rule)
  let ?os = "max start s" and ?oe = "min stop (s + l)"
  show ?case
  proof (cases "?os < ?oe")
    case True
    from Cons.prems have "scan_rules ((d, s, l) # rest) start stop = Some (converted, pushed)"
      by (simp only: rule)
    then have conv: "converted = (?os - s + d, ?oe - s + d)"
      and pushed: "pushed = (if ?os > start then [(start, ?os)] else []) @
                            (if stop > ?oe then [(?oe, stop)] else [])"
      by (simp_all only: scan_rules_hit [OF True] option.inject prod.inject)
    have "points_mset pushed = mset_set {start..<?os} + mset_set {?oe..<stop}"
      unfolding pushed by (simp add: points_mset_def range_points_def)
    moreover have "mset_set {start..<stop} =
        mset_set {start..<?os} + (mset_set {?os..<?oe} + mset_set {?oe..<stop})"
      using True mset_set_interval_split [of start ?os stop]
        mset_set_interval_split [of ?os ?oe stop] by simp
    ultimately have split: "range_points (start, stop) = mset_set {?os..<?oe} + points_mset pushed"
      by (simp add: range_points_def)
    have "image_mset (first_containing (rule # rest)) (mset_set {?os..<?oe}) =
          image_mset (\<lambda>x. (d - s) + x) (mset_set {?os..<?oe})"
      by (rule image_mset_cong) (auto simp: rule)
    also have "\<dots> = mset_set {?os + (d - s)..<?oe + (d - s)}"
      by (rule image_mset_shift_interval)
    also have "\<dots> = range_points converted"
      by (simp add: conv range_points_def algebra_simps)
    finally have "image_mset (first_containing (rule # rest)) (mset_set {?os..<?oe}) =
        range_points converted" .
    with split show ?thesis
      by (intro exI [of _ ?os] exI [of _ ?oe]) simp
  next
    case False
    from Cons.prems have "scan_rules ((d, s, l) # rest) start stop = Some (converted, pushed)"
      by (simp only: rule)
    then have "scan_rules rest start stop = Some (converted, pushed)"
      by (simp only: scan_rules_miss [OF False])
    from Cons.IH [OF this] obtain a b where ab: "start \<le> a" "b \<le> stop"
      "range_points (start, stop) = mset_set {a..<b} + points_mset pushed"
      "image_mset (first_containing rest) (mset_set {a..<b}) = range_points converted"
      by blast
    have "image_mset (first_containing (rule # rest)) (mset_set {a..<b}) =
          image_mset (first_containing rest) (mset_set {a..<b})"
      by (rule image_mset_cong) (use False ab in \<open>auto simp: rule\<close>)
    with ab show ?thesis by (intro exI [of _ a] exI [of _ b]) simp
  qed
qed

text \<open>
  The loop invariant of the coverage property: the points still on the work-list, sent
  through the category's map, together with the points already converted.
\<close>

definition accounted :: "mapping_rule list \<Rightarrow> loop_state \<Rightarrow> int multiset" where
  "accounted rules st =
     image_mset (first_containing rules) (points_mset (fst st)) + points_mset (snd st)"

lemma convert_step_accounted:
  assumes "fst st \<noteq> []"
  shows "accounted rules (convert_step rules st) = accounted rules st"
proof -
  obtain work conv where st: "st = (work, conv)" by (cases st)
  obtain start stop where l: "last work = (start, stop)" by (cases "last work")
  from assms st l have w: "points_mset work = points_mset (butlast work) + range_points (start, stop)"
    using points_mset_butlast [of work] by simp
  show ?thesis
  proof (cases "scan_rules rules start stop")
    case None
    have "image_mset (first_containing rules) (range_points (start, stop)) =
          image_mset (\<lambda>x. x) (range_points (start, stop))"
      by (rule image_mset_cong) (use None in \<open>auto simp: range_points_def scan_rules_None_fixed\<close>)
    then show ?thesis using st l w None
      by (simp add: accounted_def convert_step_def points_mset_append points_mset_def)
  next
    case (Some p)
    obtain c pushed where p: "p = (c, pushed)" by (cases p)
    from scan_rules_Some_points [of rules start stop c pushed] Some p
    obtain a b where ab:
      "range_points (start, stop) = mset_set {a..<b} + points_mset pushed"
      "image_mset (first_containing rules) (mset_set {a..<b}) = range_points c"
      by blast
    show ?thesis using st l w Some p ab
      by (simp add: accounted_def convert_step_def points_mset_append points_mset_def)
  qed
qed

declare convert_loop.simps [simp del] convert_iterations.simps [simp del]

lemma convert_loop_done: "fst st = [] \<Longrightarrow> convert_loop rules st = st"
  by (subst convert_loop.simps) simp

lemma convert_loop_more:
  "fst st \<noteq> [] \<Longrightarrow> convert_loop rules st = convert_loop rules (convert_step rules st)"
  by (subst convert_loop.simps) simp

lemma convert_loop_accounted: "accounted rules (convert_loop rules st) = accounted rules st"
proof (induction rules st rule: convert_loop.induct)
  case (1 rules st)
  show ?case
  proof (cases "fst st = []")
    case True
    then show ?thesis by (simp add: convert_loop_done)
  next
    case False
    then have "accounted rules (convert_loop rules st) =
        accounted rules (convert_loop rules (convert_step rules st))"
      by (simp add: convert_loop_more)
    also have "\<dots> = accounted rules (convert_step rules st)"
      using False by (intro "1.IH") simp
    also have "\<dots> = accounted rules st"
      using False by (rule convert_step_accounted)
    finally show ?thesis .
  qed
qed

lemma convert_loop_drained: "fst (convert_loop rules st) = []"
proof (induction rules st rule: convert_loop.induct)
  case (1 rules st)
  then show ?case
    by (cases "fst st = []") (simp_all add: convert_loop_done convert_loop_more)
qed

lemma fst_convert_seed_range:
  "fst (convert_seed_range c rs) = snd (convert_loop (category_map c) (rs, []))"
  by (simp add: convert_seed_range_def case_prod_unfold)

lemma snd_convert_seed_range: "snd (convert_seed_range c rs) = []"
  by (simp add: convert_seed_range_def case_prod_unfold convert_loop_drained)

lemma convert_seed_range_points:
  "points_mset (fst (convert_seed_range c rs)) = image_mset (convert_initial_seed c) (points_mset rs)"
proof -
  let ?final = "convert_loop (category_map c) (rs, [])"
  have "accounted (category_map c) ?final = accounted (category_map c) (rs, [])"
    by (rule convert_loop_accounted)
  moreover have "fst ?final = []" by (rule convert_loop_drained)
  ultimately have "points_mset (snd ?final) =
      image_mset (first_containing (category_map c)) (points_mset rs)"
    by (simp add: accounted_def points_mset_def)
  moreover have "convert_initial_seed c = first_containing (category_map c)"
    by (rule ext) (simp add: convert_initial_seed_def)
  ultimately show ?thesis
    by (simp add: fst_convert_seed_range)
qed

text \<open>
  Claim C1 (coverage). For every list of ranges and every category, the points of the
  ranges that \<open>convert_seed_range\<close> returns are the points of the input ranges sent
  through the category's piecewise map \<open>convert_initial_seed\<close> (the offset of the first
  rule whose source interval contains the point, the point itself when no rule does).
  This holds for the multisets of points, where a point counts once for every range
  holding it, so every input point is accounted for exactly once in the output; the
  equality of the point sets follows.
\<close>

theorem convert_seed_range_coverage:
  "points_mset (fst (convert_seed_range c rs)) =
     image_mset (convert_initial_seed c) (points_mset rs) \<and>
   point_set (fst (convert_seed_range c rs)) = convert_initial_seed c ` point_set rs"
proof
  show m: "points_mset (fst (convert_seed_range c rs)) =
     image_mset (convert_initial_seed c) (points_mset rs)"
    by (rule convert_seed_range_points)
  have "set_mset (points_mset (fst (convert_seed_range c rs))) =
        set_mset (image_mset (convert_initial_seed c) (points_mset rs))"
    by (simp only: m)
  then show "point_set (fst (convert_seed_range c rs)) = convert_initial_seed c ` point_set rs"
    by (simp add: set_mset_points_mset)
qed

section \<open>Single iterations, empty categories and ranges of length one\<close>

lemma convert_step_snoc_None:
  "scan_rules rules start stop = None \<Longrightarrow>
   convert_step rules (work @ [(start, stop)], conv) = (work, conv @ [(start, stop)])"
  by (simp add: convert_step_def)

lemma convert_step_snoc_Some:
  "scan_rules rules start stop = Some (converted, pushed) \<Longrightarrow>
   convert_step rules (work @ [(start, stop)], conv) = (work @ pushed, conv @ [converted])"
  by (simp add: convert_step_def)

lemma convert_loop_no_rules: "convert_loop [] (work, conv) = ([], conv @ rev work)"
proof (induction work arbitrary: conv rule: rev_induct)
  case Nil
  then show ?case by (simp add: convert_loop_done)
next
  case (snoc r work)
  obtain start stop where r: "r = (start, stop)" by (cases r)
  have "convert_loop [] (work @ [r], conv) = convert_loop [] (convert_step [] (work @ [r], conv))"
    by (rule convert_loop_more) simp
  also have "convert_step [] (work @ [r], conv) = (work, conv @ [r])"
    unfolding r by (rule convert_step_snoc_None) simp
  also have "convert_loop [] (work, conv @ [r]) = ([], (conv @ [r]) @ rev work)"
    by (rule snoc.IH)
  finally show ?case by simp
qed

text \<open>
  Claim C9 (empty rule list). With an empty \<open>category_map\<close> every popped range takes
  the \<open>else\<close> branch, so \<open>convert_seed_range\<close> returns exactly the input ranges, none
  of them altered and each as often as it was given. The work-list is popped from its
  end, so the returned list holds them in reverse order.
\<close>

theorem convert_seed_range_no_rules:
  "mset (fst (convert_seed_range (c\<lparr>category_map := []\<rparr>) rs)) = mset rs \<and>
   fst (convert_seed_range (c\<lparr>category_map := []\<rparr>) rs) = rev rs"
  by (simp add: fst_convert_seed_range convert_loop_no_rules)


lemma scan_rules_unit_cases:
  "(scan_rules rules n (n + 1) = None \<and> first_containing rules n = n) \<or>
   scan_rules rules n (n + 1) = Some ((first_containing rules n, first_containing rules n + 1), [])"
proof (induction rules)
  case Nil
  then show ?case by simp
next
  case (Cons rule rest)
  obtain d s l where rule: "rule = (d, s, l)" by (cases rule)
  show ?case
  proof (cases "s \<le> n \<and> n < s + l")
    case True
    then have "max n s < min (n + 1) (s + l)" by simp
    from scan_rules_hit [OF this, of d rest] True
    have "scan_rules (rule # rest) n (n + 1) = Some ((n - s + d, n + 1 - s + d), [])"
      by (simp add: rule max_def min_def del: scan_rules.simps)
    moreover from True have "first_containing (rule # rest) n = d + (n - s)"
      by (simp add: rule)
    ultimately show ?thesis by (simp del: scan_rules.simps first_containing.simps)
  next
    case False
    then have "\<not> max n s < min (n + 1) (s + l)" by auto
    then have "scan_rules (rule # rest) n (n + 1) = scan_rules rest n (n + 1)"
      unfolding rule by (rule scan_rules_miss)
    moreover from False have "first_containing (rule # rest) n = first_containing rest n"
      by (auto simp: rule)
    ultimately show ?thesis using Cons.IH by (simp only:)
  qed
qed

lemma convert_loop_unit:
  "convert_loop rules ([(n, n + 1)], []) =
     ([], [(first_containing rules n, first_containing rules n + 1)])"
proof -
  have "convert_loop rules ([(n, n + 1)], []) =
        convert_loop rules (convert_step rules ([(n, n + 1)], []))"
    by (simp add: convert_loop_more)
  also have "convert_step rules ([(n, n + 1)], []) =
      ([], [(first_containing rules n, first_containing rules n + 1)])"
    using scan_rules_unit_cases [of rules n]
      convert_step_snoc_None [of rules n "n + 1" "[]" "[]"]
      convert_step_snoc_Some [of rules n "n + 1" _ _ "[]" "[]"]
    by auto
  finally show ?thesis by (simp add: convert_loop_done)
qed

text \<open>
  Claim C6 (single-value variant). For every integer \<open>n\<close> and every category,
  \<open>convert_initial_seed\<close> gives \<open>m\<close> exactly when \<open>convert_seed_range\<close> on the single
  range from \<open>n\<close> to \<open>n + 1\<close> returns the single range from \<open>m\<close> to \<open>m + 1\<close>.
\<close>

theorem convert_initial_seed_is_unit_range:
  "convert_initial_seed c n = m \<longleftrightarrow>
   fst (convert_seed_range c [(n, n + 1)]) = [(m, m + 1)]"
  by (auto simp: fst_convert_seed_range convert_loop_unit convert_initial_seed_def)

end
